theory Spec2Isabelle
  imports Main
begin

section \<open>Text as the extension handles it\<close>

text \<open>
  JavaScript strings are modelled as \<^typ>\<open>string\<close>: a list of code units, here restricted
  to the 8-bit range. The helpers below are the String methods the providers call.
\<close>

definition nl :: char where
  "nl = CHR 0x0A"

definition isWhiteSpace :: "char \<Rightarrow> bool" where
  \<comment> \<open>the white space and line terminators that \<open>trim\<close> removes, within the 8-bit range\<close>
  "isWhiteSpace c \<longleftrightarrow>
     c \<in> set [CHR 0x09, CHR 0x0A, CHR 0x0B, CHR 0x0C, CHR 0x0D, CHR 0x20, CHR 0xA0]"

definition trimStart :: "string \<Rightarrow> string" where
  "trimStart s = dropWhile isWhiteSpace s"

definition trimEnd :: "string \<Rightarrow> string" where
  "trimEnd s = rev (dropWhile isWhiteSpace (rev s))"

definition trim :: "string \<Rightarrow> string" where
  "trim s = trimEnd (trimStart s)"

text \<open>\<open>s.split(sep)\<close> for a one-character separator: never the empty list.\<close>

fun split :: "char \<Rightarrow> string \<Rightarrow> string list" where
  "split sep [] = [[]]"
| "split sep (c # cs) =
     (if c = sep then [] # split sep cs
      else (case split sep cs of
              [] \<Rightarrow> [[c]]
            | l # ls \<Rightarrow> (c # l) # ls))"

text \<open>\<open>lines.join('\n')\<close>.\<close>

fun join :: "char \<Rightarrow> string list \<Rightarrow> string" where
  "join sep [] = []"
| "join sep [l] = l"
| "join sep (l # ls) = l @ sep # join sep ls"

text \<open>\<open>s.indexOf(c)\<close>: the first index of \<open>c\<close>, or \<open>-1\<close>.\<close>

fun indexOf :: "char \<Rightarrow> string \<Rightarrow> int" where
  "indexOf c [] = -1"
| "indexOf c (d # ds) =
     (if d = c then 0 else (let k = indexOf c ds in if k = -1 then -1 else k + 1))"

text \<open>
  \<open>s.substring(a, b)\<close> and \<open>s.substring(a)\<close>: both indices are clamped to
  \<open>[0, length]\<close> and swapped when the first is the larger.
\<close>

definition substring :: "string \<Rightarrow> int \<Rightarrow> int \<Rightarrow> string" where
  "substring s a b =
     (let len = int (length s);
          a' = max 0 (min a len);
          b' = max 0 (min b len);
          from = min a' b';
          to = max a' b'
      in take (nat (to - from)) (drop (nat from) s))"

definition substringFrom :: "string \<Rightarrow> int \<Rightarrow> string" where
  "substringFrom s a = substring s a (int (length s))"


section \<open>Documents and cursor positions\<close>

record Position =
  line :: nat
  character :: nat

record TextDocument =
  lines :: "string list"
  languageId :: string
  fileName :: string

datatype error = IllegalLine

definition lineCount :: "TextDocument \<Rightarrow> int" where
  "lineCount document = int (length (lines document))"

text \<open>\<open>document.lineAt(i).text\<close>: the editor raises on a line number out of range.\<close>

definition lineAt :: "TextDocument \<Rightarrow> int \<Rightarrow> error + string" where
  "lineAt document i =
     (if 0 \<le> i \<and> i < lineCount document then Inr (lines document ! nat i)
      else Inl IllegalLine)"


section \<open>OllamaCompletionProvider\<close>

subsection \<open>getContextLines\<close>

text \<open>The \<open>for (let i = startLine; i <= endLine; i++)\<close> loop, with \<open>lines\<close> as accumulator.\<close>

function getContextLines_loop ::
  "TextDocument \<Rightarrow> Position \<Rightarrow> int \<Rightarrow> int \<Rightarrow> string list \<Rightarrow> error + string list" where
  "getContextLines_loop document position i endLine acc =
     (if i \<le> endLine then
        (case lineAt document i of
           Inl e \<Rightarrow> Inl e
         | Inr text \<Rightarrow>
             getContextLines_loop document position (i + 1) endLine
               (acc @ [if i = int (line position)
                       then substring text 0 (int (character position))
                       else text]))
      else Inr acc)"
  by pat_completeness auto
termination
  by (relation "measure (\<lambda>(document, position, i, endLine, acc). nat (endLine + 1 - i))") auto

definition getContextLines :: "TextDocument \<Rightarrow> Position \<Rightarrow> error + string list" where
  "getContextLines document position =
     (let startLine = max 0 (int (line position) - 10);
          endLine = min (lineCount document - 1) (int (line position) + 5)
      in getContextLines_loop document position startLine endLine [])"

text \<open>
  The text that \<open>buildPrompt\<close> embeds between the code fences of the prompt:
  \<open>contextLines.join('\n')\<close>.
\<close>

definition contextText :: "TextDocument \<Rightarrow> Position \<Rightarrow> error + string" where
  "contextText document position =
     (case getContextLines document position of
        Inl e \<Rightarrow> Inl e
      | Inr contextLines \<Rightarrow> Inr (join nl contextLines))"

text \<open>
  The prefix window in the specification's words: the lines from \<open>max(0, line - 10)\<close>
  through the cursor's line, the cursor's line cut at the cursor column.
\<close>

definition spec_prefix_window :: "TextDocument \<Rightarrow> Position \<Rightarrow> string list" where
  "spec_prefix_window document position =
     map (\<lambda>i. if i = line position
              then take (character position) (lines document ! i)
              else lines document ! i)
         [line position - 10 ..< Suc (line position)]"


subsection \<open>getSuffix\<close>

text \<open>The \<open>for (let i = position.line + 1; i <= maxLines; i++)\<close> loop.\<close>

function getSuffix_loop :: "TextDocument \<Rightarrow> int \<Rightarrow> int \<Rightarrow> string list \<Rightarrow> error + string list" where
  "getSuffix_loop document i maxLines acc =
     (if i \<le> maxLines then
        (case lineAt document i of
           Inl e \<Rightarrow> Inl e
         | Inr text \<Rightarrow> getSuffix_loop document (i + 1) maxLines (acc @ [text]))
      else Inr acc)"
  by pat_completeness auto
termination
  by (relation "measure (\<lambda>(document, i, maxLines, acc). nat (maxLines + 1 - i))") auto

definition getSuffix :: "TextDocument \<Rightarrow> Position \<Rightarrow> error + string" where
  "getSuffix document position =
     (case lineAt document (int (line position)) of
        Inl e \<Rightarrow> Inl e
      | Inr currentLine \<Rightarrow>
          (let suffixOnLine = substringFrom currentLine (int (character position));
               maxLines = min (lineCount document - 1) (int (line position) + 3)
           in case getSuffix_loop document (int (line position) + 1) maxLines [suffixOnLine] of
                Inl e \<Rightarrow> Inl e
              | Inr ls \<Rightarrow> Inr (trim (join nl ls))))"

subsection \<open>processCompletion\<close>

definition isWordChar :: "char \<Rightarrow> bool" where
  \<comment> \<open>the class \<open>\w\<close> of a regular expression without flags\<close>
  "isWordChar c \<longleftrightarrow>
     (let n = (of_char c :: nat)
      in (65 \<le> n \<and> n \<le> 90) \<or> (97 \<le> n \<and> n \<le> 122) \<or> (48 \<le> n \<and> n \<le> 57) \<or> n = 95)"

definition fence :: string where
  "fence = [CHR 0x60, CHR 0x60, CHR 0x60]"

text \<open>
  \<open>s.replace(/^```[\w]*\n?/, '')\<close>: anchored at the start, the word characters are
  matched greedily and one newline after them is taken when it is there.
\<close>

definition stripOpeningFence :: "string \<Rightarrow> string" where
  "stripOpeningFence s =
     (if take 3 s = fence then
        (case dropWhile isWordChar (drop 3 s) of
           [] \<Rightarrow> []
         | c # r \<Rightarrow> if c = nl then r else c # r)
      else s)"

text \<open>
  \<open>s.replace(/\n?```$/, '')\<close>: without the \<open>m\<close> flag \<open>$\<close> is the end of the input, and
  the leftmost match takes the newline before the fence when it is there.
\<close>

definition stripClosingFence :: "string \<Rightarrow> string" where
  "stripClosingFence s =
     (if 3 \<le> length s \<and> drop (length s - 3) s = fence then
        (let r = take (length s - 3) s
         in if r \<noteq> [] \<and> last r = nl then butlast r else r)
      else s)"

text \<open>
  The body of \<open>processCompletion\<close> up to the echo check: trim, fence stripping,
  \<open>trimStart\<close> of the first line, truncation at the first newline.
\<close>

definition cleanCompletion :: "string \<Rightarrow> string" where
  "cleanCompletion completion =
     (let processed = trim completion;
          processed = stripClosingFence (stripOpeningFence processed);
          cleanedLines = (case split nl processed of
                            [] \<Rightarrow> []
                          | l # ls \<Rightarrow> trimStart l # ls);
          processed = join nl cleanedLines;
          firstLineEnd = indexOf nl processed
      in if firstLineEnd \<noteq> -1 then substring processed 0 firstLineEnd else processed)"

definition processCompletion :: "string \<Rightarrow> TextDocument \<Rightarrow> Position \<Rightarrow> error + string" where
  "processCompletion completion document position =
     (if completion = [] then Inr []
      else
        (let processed = cleanCompletion completion
         in case lineAt document (int (line position)) of
              Inl e \<Rightarrow> Inl e
            | Inr currentLineText \<Rightarrow>
                (let linePrefix = substring currentLineText 0 (int (character position))
                 in if trim processed = trim linePrefix then Inr [] else Inr processed)))"


section \<open>OllamaApi: the wire format\<close>

datatype Role = System | User | Assistant

record OllamaMessage =
  role :: Role
  content :: string

text \<open>
  \<open>OllamaChatResponse\<close>, with the fields the stream handler reads. The handler tests
  \<open>data.message\<close> before it reads the content, so the field is optional here.
\<close>

record OllamaChatResponse =
  message :: "OllamaMessage option"
  done' :: bool

text \<open>
  \<open>JSON.parse(line)\<close> typed as \<open>OllamaChatResponse\<close>: \<open>None\<close> stands for the exception
  that the handler catches. The handlers below take the parser as a parameter, so what is
  proved of them holds for every parser.
\<close>

type_synonym parser = "string \<Rightarrow> OllamaChatResponse option"

subsection \<open>A JSON reader, for concrete streams\<close>

text \<open>
  The grammar of JSON texts: values, with numbers kept as their literal. The length
  tests in \<open>parseElements\<close> and \<open>parseMembers\<close> only make the recursion visibly
  decreasing (\<open>parseElements_unguarded\<close> and \<open>parseMembers_unguarded\<close> below:
  they never fail); \<open>\u\<close> escapes above the 8-bit range are not represented.
\<close>

datatype json =
    JNull
  | JBool bool
  | JNumber string
  | JString string
  | JArray "json list"
  | JObject "(string \<times> json) list"

definition isJsonSpace :: "char \<Rightarrow> bool" where
  "isJsonSpace c \<longleftrightarrow> c \<in> set [CHR 0x20, CHR 0x09, CHR 0x0A, CHR 0x0D]"

definition skipSpace :: "string \<Rightarrow> string" where
  "skipSpace s = dropWhile isJsonSpace s"

definition isDigit :: "char \<Rightarrow> bool" where
  "isDigit c \<longleftrightarrow> 48 \<le> (of_char c :: nat) \<and> (of_char c :: nat) \<le> 57"

definition hexValue :: "char \<Rightarrow> nat option" where
  "hexValue c =
     (let n = (of_char c :: nat)
      in if 48 \<le> n \<and> n \<le> 57 then Some (n - 48)
         else if 65 \<le> n \<and> n \<le> 70 then Some (n - 55)
         else if 97 \<le> n \<and> n \<le> 102 then Some (n - 87)
         else None)"

definition unescape :: "char \<Rightarrow> char option" where
  "unescape e =
     (if e = CHR 0x22 then Some (CHR 0x22)
      else if e = CHR 0x5C then Some (CHR 0x5C)
      else if e = CHR ''/'' then Some (CHR ''/'')
      else if e = CHR ''b'' then Some (CHR 0x08)
      else if e = CHR ''f'' then Some (CHR 0x0C)
      else if e = CHR ''n'' then Some (CHR 0x0A)
      else if e = CHR ''r'' then Some (CHR 0x0D)
      else if e = CHR ''t'' then Some (CHR 0x09)
      else None)"

definition consResult :: "'a \<Rightarrow> ('a list \<times> string) option \<Rightarrow> ('a list \<times> string) option" where
  "consResult x r = (case r of None \<Rightarrow> None | Some (xs, rest) \<Rightarrow> Some (x # xs, rest))"

fun parseString :: "string \<Rightarrow> (string \<times> string) option" where
  "parseString [] = None"
| "parseString (c # cs) =
     (if c = CHR 0x22 then Some ([], cs)
      else if c = CHR 0x5C then
        (case cs of
           [] \<Rightarrow> None
         | e # rest \<Rightarrow>
             (if e = CHR ''u'' then
                (case rest of
                   h1 # h2 # h3 # h4 # rest' \<Rightarrow>
                     (case (hexValue h1, hexValue h2, hexValue h3, hexValue h4) of
                        (Some a, Some b, Some c, Some d) \<Rightarrow>
                          (let n = ((a * 16 + b) * 16 + c) * 16 + d
                           in if n < 256 then consResult (char_of n) (parseString rest')
                              else None)
                      | _ \<Rightarrow> None)
                 | _ \<Rightarrow> None)
              else
                (case unescape e of
                   None \<Rightarrow> None
                 | Some ch \<Rightarrow> consResult ch (parseString rest))))
      else if (of_char c :: nat) < 32 then None
      else consResult c (parseString cs))"

definition parseDigits :: "string \<Rightarrow> (string \<times> string) option" where
  "parseDigits s =
     (if takeWhile isDigit s = [] then None
      else Some (takeWhile isDigit s, dropWhile isDigit s))"

definition parseNumber :: "string \<Rightarrow> (string \<times> string) option" where
  "parseNumber s =
     (let (sign, s1) = (case s of [] \<Rightarrow> ([], s)
                        | c # r \<Rightarrow> if c = CHR ''-'' then ([c], r) else ([], s));
          intPart = (case s1 of [] \<Rightarrow> None
                     | c # r \<Rightarrow> if c = CHR ''0'' then Some ([c], r) else parseDigits s1)
      in case intPart of
           None \<Rightarrow> None
         | Some (ds, s2) \<Rightarrow>
             (let fracPart = (case s2 of [] \<Rightarrow> Some ([], s2)
                              | c # r \<Rightarrow>
                                  if c = CHR ''.'' then
                                    (case parseDigits r of None \<Rightarrow> None
                                     | Some (fs, r') \<Rightarrow> Some (c # fs, r'))
                                  else Some ([], s2))
              in case fracPart of
                   None \<Rightarrow> None
                 | Some (fs, s3) \<Rightarrow>
                     (let expPart =
                            (case s3 of [] \<Rightarrow> Some ([], s3)
                             | c # r \<Rightarrow>
                                 if c = CHR ''e'' \<or> c = CHR ''E'' then
                                   (let (esign, r1) =
                                          (case r of [] \<Rightarrow> ([], r)
                                           | d # r' \<Rightarrow> if d = CHR ''+'' \<or> d = CHR ''-''
                                                       then ([d], r') else ([], r))
                                    in case parseDigits r1 of None \<Rightarrow> None
                                       | Some (es, r2) \<Rightarrow> Some (c # esign @ es, r2))
                                 else Some ([], s3))
                      in case expPart of
                           None \<Rightarrow> None
                         | Some (es, s4) \<Rightarrow> Some (sign @ ds @ fs @ es, s4))))"

function parseValue :: "string \<Rightarrow> (json \<times> string) option"
  and parseElements :: "string \<Rightarrow> (json list \<times> string) option"
  and parseMembers :: "string \<Rightarrow> ((string \<times> json) list \<times> string) option" where
  "parseValue s =
     (case skipSpace s of
        [] \<Rightarrow> None
      | c # r \<Rightarrow>
          if c = CHR ''{'' then
            (case skipSpace r of
               [] \<Rightarrow> None
             | d # r' \<Rightarrow>
                 if d = CHR ''}'' then Some (JObject [], r')
                 else (case parseMembers r of
                         None \<Rightarrow> None
                       | Some (ms, rest) \<Rightarrow> Some (JObject ms, rest)))
          else if c = CHR ''['' then
            (case skipSpace r of
               [] \<Rightarrow> None
             | d # r' \<Rightarrow>
                 if d = CHR '']'' then Some (JArray [], r')
                 else (case parseElements r of
                         None \<Rightarrow> None
                       | Some (vs, rest) \<Rightarrow> Some (JArray vs, rest)))
          else if c = CHR 0x22 then
            (case parseString r of
               None \<Rightarrow> None
             | Some (str, rest) \<Rightarrow> Some (JString str, rest))
          else if take 4 (c # r) = ''true'' then Some (JBool True, drop 4 (c # r))
          else if take 5 (c # r) = ''false'' then Some (JBool False, drop 5 (c # r))
          else if take 4 (c # r) = ''null'' then Some (JNull, drop 4 (c # r))
          else (case parseNumber (c # r) of
                  None \<Rightarrow> None
                | Some (num, rest) \<Rightarrow> Some (JNumber num, rest)))"
| "parseElements s =
     (case parseValue s of
        None \<Rightarrow> None
      | Some (v, r) \<Rightarrow>
          if length r < length s then
            (case skipSpace r of
               [] \<Rightarrow> None
             | c # r' \<Rightarrow>
                 if c = CHR '','' then consResult v (parseElements r')
                 else if c = CHR '']'' then Some ([v], r')
                 else None)
          else None)"
| "parseMembers s =
     (case skipSpace s of
        [] \<Rightarrow> None
      | q # r0 \<Rightarrow>
          if q = CHR 0x22 then
            (case parseString r0 of
               None \<Rightarrow> None
             | Some (key, r1) \<Rightarrow>
                 (case skipSpace r1 of
                    [] \<Rightarrow> None
                  | colon # r2 \<Rightarrow>
                      if colon = CHR '':'' \<and> length r2 < length s then
                        (case parseValue r2 of
                           None \<Rightarrow> None
                         | Some (v, r) \<Rightarrow>
                             if length r < length s then
                               (case skipSpace r of
                                  [] \<Rightarrow> None
                                | c # r' \<Rightarrow>
                                    if c = CHR '','' then consResult (key, v) (parseMembers r')
                                    else if c = CHR ''}'' then Some ([(key, v)], r')
                                    else None)
                             else None)
                      else None))
          else None)"
  by pat_completeness auto
termination
proof -
  have skip: "length r < length s" if "skipSpace s = c # r" for s c r
  proof -
    have "length (skipSpace s) \<le> length s"
      unfolding skipSpace_def by (rule length_dropWhile_le)
    with that show ?thesis by simp
  qed
  show ?thesis
    by (relation "measure (\<lambda>x. case x of
                            Inl s \<Rightarrow> 2 * length s
                          | Inr (Inl s) \<Rightarrow> 2 * length s + 1
                          | Inr (Inr s) \<Rightarrow> 2 * length s + 1)")
       (auto dest!: skip)
qed

definition JSON_parse :: "string \<Rightarrow> json option" where
  "JSON_parse s =
     (case parseValue s of
        None \<Rightarrow> None
      | Some (v, rest) \<Rightarrow> if skipSpace rest = [] then Some v else None)"


text \<open>An object's member: when a key is repeated the last one counts.\<close>

definition member :: "string \<Rightarrow> (string \<times> json) list \<Rightarrow> json option" where
  "member key ms = map_of (rev ms) key"

definition decodeRole :: "json \<Rightarrow> Role option" where
  "decodeRole j =
     (case j of
        JString r \<Rightarrow>
          if r = ''system'' then Some System
          else if r = ''user'' then Some User
          else if r = ''assistant'' then Some Assistant
          else None
      | _ \<Rightarrow> None)"

definition decodeMessage :: "json \<Rightarrow> OllamaMessage option" where
  "decodeMessage j =
     (case j of
        JObject ms \<Rightarrow>
          (case (member ''role'' ms, member ''content'' ms) of
             (Some r, Some (JString c)) \<Rightarrow>
               (case decodeRole r of
                  None \<Rightarrow> None
                | Some r' \<Rightarrow> Some \<lparr>role = r', content = c\<rparr>)
           | _ \<Rightarrow> None)
      | _ \<Rightarrow> None)"

text \<open>
  The cast to the declared interface. A value that is no object gives the handler nothing
  to deliver (\<open>null\<close> raises inside the \<open>try\<close>, any other has no \<open>message\<close>), like a
  failed parse; an object whose \<open>message\<close> does not have the declared shape has no typed
  image.
\<close>

definition decodeChatResponse :: "json \<Rightarrow> OllamaChatResponse option" where
  "decodeChatResponse j =
     (case j of
        JObject ms \<Rightarrow>
          (case member ''message'' ms of
             None \<Rightarrow> Some \<lparr>message = None, done' = (member ''done'' ms = Some (JBool True))\<rparr>
           | Some m \<Rightarrow>
               (case decodeMessage m of
                  None \<Rightarrow> None
                | Some m' \<Rightarrow>
                    Some \<lparr>message = Some m',
                          done' = (member ''done'' ms = Some (JBool True))\<rparr>))
      | _ \<Rightarrow> None)"

definition parseChatResponse :: parser where
  "parseChatResponse ln =
     (case JSON_parse ln of
        None \<Rightarrow> None
      | Some j \<Rightarrow> decodeChatResponse j)"

text \<open>
  A line of the wire format as the model service writes it, for a fragment without
  characters that JSON escapes.
\<close>

definition assistantLine :: "string \<Rightarrow> string" where
  "assistantLine fragment =
     ''{\"message\":{\"role\":\"assistant\",\"content\":\"'' @ fragment @ ''\"},\"done\":false}''"


subsection \<open>streamChatCompletion: the data handler\<close>

text \<open>
  The handler registered with \<open>response.data.on('data', ...)\<close>: the chunk is split at
  newlines, blank lines are filtered out, and \<open>onChunk\<close> is called with the content of
  every line that parses and has a message with non-empty content. The state \<open>'st\<close> is
  whatever the callback changes.
\<close>

definition onLine :: "parser \<Rightarrow> (string \<Rightarrow> 'st \<Rightarrow> 'st) \<Rightarrow> 'st \<Rightarrow> string \<Rightarrow> 'st" where
  "onLine parse onChunk st ln =
     (case parse ln of
        None \<Rightarrow> st
      | Some data \<Rightarrow>
          (case message data of
             None \<Rightarrow> st
           | Some m \<Rightarrow> if content m \<noteq> [] then onChunk (content m) st else st))"

definition onData :: "parser \<Rightarrow> (string \<Rightarrow> 'st \<Rightarrow> 'st) \<Rightarrow> string \<Rightarrow> 'st \<Rightarrow> 'st" where
  "onData parse onChunk chunk st =
     foldl (onLine parse onChunk) st (filter (\<lambda>ln. trim ln \<noteq> []) (split nl chunk))"

text \<open>The callback's arguments, in order, when a stream arrives as the given chunks.\<close>

definition fragments :: "parser \<Rightarrow> string list \<Rightarrow> string list" where
  "fragments parse chunks =
     foldl (\<lambda>acc chunk. onData parse (\<lambda>c acc. acc @ [c]) chunk acc) [] chunks"


section \<open>OllamaChatProvider\<close>

text \<open>
  The provider runs on an event loop: \<open>handleSendMessage\<close> runs up to its \<open>await\<close>, and
  resumes when the connection is made or refused; the stream's chunks arrive as later
  events. Every call of \<open>handleSendMessage\<close> has a number; \<open>assistantMessage\<close> holds the
  local variable of that name for each call, which the \<open>onChunk\<close> closure appends to.
  \<open>trace\<close> records, in order, what the provider and the transport do to each other.
  The webview notifications read the history and change nothing; they are left out.
  A message object is written only through the history (the copy \<open>messages\<close> is
  serialised when the request is issued, before any later write), so the history is a
  list of values.
\<close>

datatype Phase = Idle | Connecting | Streaming | Ended | Failed

datatype Action =
    Request nat "OllamaMessage list"
  | Resolved nat
  | Rejected nat string
  | OnChunk nat string

record ChatState =
  chatHistory :: "OllamaMessage list"
  maxHistory :: nat
  nextCall :: nat
  phase :: "nat \<Rightarrow> Phase"
  assistantMessage :: "nat \<Rightarrow> string"
  trace :: "Action list"

definition initial :: "nat \<Rightarrow> ChatState" where
  "initial b =
     \<lparr>chatHistory = [], maxHistory = b, nextCall = 0, phase = (\<lambda>_. Idle),
      assistantMessage = (\<lambda>_. []), trace = []\<rparr>"

text \<open>
  \<open>xs.slice(start)\<close>: a negative start counts from the end, and both are clamped.
  \<open>-0\<close> is \<open>0\<close>: \<open>xs.slice(-0)\<close> is the whole array.
\<close>

definition slice :: "int \<Rightarrow> 'a list \<Rightarrow> 'a list" where
  "slice start xs =
     (let len = int (length xs);
          k = (if start < 0 then max (len + start) 0 else min start len)
      in drop (nat k) xs)"

definition addMessageToHistory :: "OllamaMessage \<Rightarrow> ChatState \<Rightarrow> ChatState" where
  "addMessageToHistory msg s =
     (let pushed = chatHistory s @ [msg]
      in if int (length pushed) > int (maxHistory s) * 2
         then s\<lparr>chatHistory := slice (- int (maxHistory s) * 2) pushed\<rparr>
         else s\<lparr>chatHistory := pushed\<rparr>)"

text \<open>
  \<open>if (this.chatHistory.length > 0) this.chatHistory[this.chatHistory.length - 1].content = c\<close>
\<close>

definition setLastContent :: "string \<Rightarrow> OllamaMessage list \<Rightarrow> OllamaMessage list" where
  "setLastContent c h =
     (if length h > 0
      then h[length h - 1 := (h ! (length h - 1))\<lparr>content := c\<rparr>]
      else h)"

text \<open>The callback that call number \<open>call\<close> of \<open>handleSendMessage\<close> hands to the transport.\<close>

definition onChunk :: "nat \<Rightarrow> string \<Rightarrow> ChatState \<Rightarrow> ChatState" where
  "onChunk call chunk s =
     (let acc = assistantMessage s call @ chunk
      in s\<lparr>assistantMessage := (assistantMessage s)(call := acc),
           chatHistory := setLastContent acc (chatHistory s),
           trace := trace s @ [OnChunk call chunk]\<rparr>)"

text \<open>\<open>handleSendMessage\<close> up to the \<open>await\<close>.\<close>

definition handleSendMessage :: "string \<Rightarrow> ChatState \<Rightarrow> ChatState" where
  "handleSendMessage userMessage s =
     (if trim userMessage = [] then s
      else
        (let userMsg = \<lparr>role = User, content = trim userMessage\<rparr>;
             s1 = addMessageToHistory userMsg s;
             messages = chatHistory s1;
             assistantMsg = \<lparr>role = Assistant, content = []\<rparr>;
             s2 = addMessageToHistory assistantMsg s1;
             call = nextCall s2
         in s2\<lparr>nextCall := call + 1,
               phase := (phase s2)(call := Connecting),
               assistantMessage := (assistantMessage s2)(call := []),
               trace := trace s2 @ [Request call messages]\<rparr>))"

text \<open>After the \<open>await\<close>: "Ensure the final message is set".\<close>

definition handleSendMessage_resumed :: "nat \<Rightarrow> ChatState \<Rightarrow> ChatState" where
  "handleSendMessage_resumed call s =
     s\<lparr>chatHistory := setLastContent (assistantMessage s call) (chatHistory s)\<rparr>"

text \<open>The \<open>catch\<close> block, with the message of the error caught.\<close>

definition handleSendMessage_catch :: "string \<Rightarrow> ChatState \<Rightarrow> ChatState" where
  "handleSendMessage_catch errorMessage s =
     (let h = chatHistory s;
          h' = (if length h > 0 \<and> role (h ! (length h - 1)) = Assistant
                then butlast h else h);
          errorMsg = \<lparr>role = Assistant, content = ''Error: '' @ errorMessage\<rparr>
      in addMessageToHistory errorMsg (s\<lparr>chatHistory := h'\<rparr>))"

definition clearChat :: "ChatState \<Rightarrow> ChatState" where
  "clearChat s = s\<lparr>chatHistory := []\<rparr>"

text \<open>
  What the event loop delivers. \<open>ConnectOk\<close>: \<open>axios.post\<close> resolves with the response
  stream; \<open>streamChatCompletion\<close> registers its handlers and returns, so its promise
  resolves and \<open>handleSendMessage\<close> resumes. \<open>ConnectFail\<close>: \<open>axios.post\<close> rejects, and
  \<open>streamChatCompletion\<close> throws \<open>Failed to stream chat completion: ...\<close>. \<open>Data\<close>,
  \<open>End\<close>, \<open>StreamError\<close>: the events of an open response stream; a handler is registered
  for the first (and an empty one for the second), none for the third.
\<close>

datatype Event =
    SendMessage string
  | ClearChat
  | ConnectOk nat
  | ConnectFail nat string
  | Data nat string
  | End nat
  | StreamError nat

fun step :: "parser \<Rightarrow> ChatState \<Rightarrow> Event \<Rightarrow> ChatState" where
  "step parse s (SendMessage userMessage) = handleSendMessage userMessage s"
| "step parse s ClearChat = clearChat s"
| "step parse s (ConnectOk call) =
     (if phase s call = Connecting
      then handleSendMessage_resumed call
             (s\<lparr>phase := (phase s)(call := Streaming), trace := trace s @ [Resolved call]\<rparr>)
      else s)"
| "step parse s (ConnectFail call err) =
     (if phase s call = Connecting
      then (let errorMessage = ''Failed to stream chat completion: '' @ err
            in handleSendMessage_catch errorMessage
                 (s\<lparr>phase := (phase s)(call := Failed),
                    trace := trace s @ [Rejected call errorMessage]\<rparr>))
      else s)"
| "step parse s (Data call chunk) =
     (if phase s call = Streaming then onData parse (onChunk call) chunk s else s)"
| "step parse s (End call) =
     (if phase s call = Streaming then s\<lparr>phase := (phase s)(call := Ended)\<rparr> else s)"
| "step parse s (StreamError call) =
     (if phase s call = Streaming then s\<lparr>phase := (phase s)(call := Failed)\<rparr> else s)"

definition run :: "parser \<Rightarrow> ChatState \<Rightarrow> Event list \<Rightarrow> ChatState" where
  "run parse s events = foldl (step parse) s events"


subsection \<open>Event sequences\<close>

text \<open>
  The events of an open response stream and of the connection being made: what can
  reach the provider for a call that is on its way, other than a refused connection.
\<close>

fun streamEvent :: "Event \<Rightarrow> bool" where
  "streamEvent (ConnectOk call) = True"
| "streamEvent (Data call chunk) = True"
| "streamEvent (End call) = True"
| "streamEvent (StreamError call) = True"
| "streamEvent (SendMessage userMessage) = False"
| "streamEvent ClearChat = False"
| "streamEvent (ConnectFail call err) = False"

text \<open>
  A completed exchange: the message is sent, the connection is made, the chunks arrive
  and the stream ends, before anything else happens. \<open>exchanges\<close> runs one after the
  other, the calls numbered from \<open>call\<close> on.
\<close>

definition exchange :: "nat \<Rightarrow> string \<Rightarrow> string list \<Rightarrow> Event list" where
  "exchange call userMessage chunks =
     [SendMessage userMessage, ConnectOk call] @ map (Data call) chunks @ [End call]"

fun exchanges :: "nat \<Rightarrow> (string \<times> string list) list \<Rightarrow> Event list" where
  "exchanges call [] = []"
| "exchanges call (x # rest) = exchange call (fst x) (snd x) @ exchanges (Suc call) rest"

text \<open>The two turns of a completed exchange, and the last \<open>n\<close> elements of a list.\<close>

definition exchangeTurns :: "parser \<Rightarrow> string \<times> string list \<Rightarrow> OllamaMessage list" where
  "exchangeTurns parse x =
     [\<lparr>role = User, content = trim (fst x)\<rparr>,
      \<lparr>role = Assistant, content = concat (fragments parse (snd x))\<rparr>]"

definition mostRecent :: "nat \<Rightarrow> 'a list \<Rightarrow> 'a list" where
  "mostRecent n xs = drop (length xs - n) xs"


section \<open>Properties of the completion provider\<close>

lemma substring_from_start: "substring s 0 (int n) = take n s"
  by (simp add: substring_def Let_def min_def max_def)

lemma getContextLines_loop_eq:
  "0 \<le> i \<Longrightarrow> endLine < lineCount document \<Longrightarrow>
   getContextLines_loop document position i endLine acc =
     Inr (acc @ map (\<lambda>k. if k = line position
                          then take (character position) (lines document ! k)
                          else lines document ! k) [nat i ..< nat (endLine + 1)])"
proof (induction document position i endLine acc rule: getContextLines_loop.induct)
  case (1 document position i endLine acc)
  show ?case
  proof (cases "i \<le> endLine")
    case False
    then show ?thesis by (subst getContextLines_loop.simps) simp
  next
    case True
    with "1.prems" have inr: "lineAt document i = Inr (lines document ! nat i)"
      by (simp add: lineAt_def)
    from True "1.prems" have lt: "nat i < nat (endLine + 1)"
      and suc: "nat (i + 1) = Suc (nat i)"
      by linarith+
    have upt: "[nat i ..< nat (endLine + 1)] = nat i # [nat (i + 1) ..< nat (endLine + 1)]"
      unfolding suc using lt by (rule upt_conv_Cons)
    have eq: "(i = int (line position)) = (nat i = line position)"
      using "1.prems" by auto
    show ?thesis
      apply (subst getContextLines_loop.simps)
      using True "1.prems" "1.IH"[OF True inr]
      apply (simp add: inr upt substring_from_start eq del: getContextLines_loop.simps)
      done
  qed
qed

text \<open>
  C3, as the code has it. For every document and cursor position \<open>getContextLines\<close>
  returns (it never raises) the lines from \<open>max(0, line - 10)\<close> through
  \<open>min(lineCount - 1, line + 5)\<close>: the cursor's line cut at the cursor column, every
  other line whole, the lines after the cursor's among them.
\<close>

theorem getContextLines_window:
  "getContextLines document position =
     Inr (map (\<lambda>k. if k = line position
                   then take (character position) (lines document ! k)
                   else lines document ! k)
              [line position - 10 ..< min (length (lines document)) (line position + 6)])"
proof -
  have a: "nat (max 0 (int (line position) - 10)) = line position - 10"
    by simp
  have b: "nat (min (lineCount document - 1) (int (line position) + 5) + 1) =
           min (length (lines document)) (line position + 6)"
    unfolding lineCount_def by linarith
  show ?thesis
    unfolding getContextLines_def Let_def
    by (subst getContextLines_loop_eq) (simp_all add: a b del: getContextLines_loop.simps)
qed

theorem getContextLines_window_witness:
  "getContextLines \<lparr>lines = [''let a = 1;'', ''return a'', ''}''], languageId = ''javascript'',
                     fileName = ''a.js''\<rparr> \<lparr>line = 1, character = 6\<rparr> =
     Inr [''let a = 1;'', ''return'', ''}'']"
  using getContextLines_window
    [of "\<lparr>lines = [''let a = 1;'', ''return a'', ''}''], languageId = ''javascript'',
          fileName = ''a.js''\<rparr>" "\<lparr>line = 1, character = 6\<rparr>"]
  by (simp add: upt_conv_Cons)

text \<open>
  C3 as stated fails: with the cursor on the first of two lines, the context holds the
  second line too, which the prefix window of the specification does not.
\<close>

theorem getContextLines_after_cursor:
  "getContextLines \<lparr>lines = [''ab'', ''cd''], languageId = ''javascript'', fileName = ''a.js''\<rparr>
       \<lparr>line = 0, character = 1\<rparr> = Inr [''a'', ''cd'']
   \<and> spec_prefix_window \<lparr>lines = [''ab'', ''cd''], languageId = ''javascript'',
                          fileName = ''a.js''\<rparr> \<lparr>line = 0, character = 1\<rparr> = [''a'']
   \<and> getContextLines \<lparr>lines = [''ab'', ''cd''], languageId = ''javascript'', fileName = ''a.js''\<rparr>
       \<lparr>line = 0, character = 1\<rparr>
     \<noteq> Inr (spec_prefix_window \<lparr>lines = [''ab'', ''cd''], languageId = ''javascript'',
                                     fileName = ''a.js''\<rparr> \<lparr>line = 0, character = 1\<rparr>)
   \<and> contextText \<lparr>lines = [''ab'', ''cd''], languageId = ''javascript'', fileName = ''a.js''\<rparr>
       \<lparr>line = 0, character = 1\<rparr> = Inr ''a\<newline>cd''"
  by code_simp

text \<open>
  The suffix sent beside the prompt: the rest of the cursor's line and the lines down to
  \<open>min(lineCount - 1, line + 3)\<close>, trimmed. It never reads past the last line.
\<close>

lemma substringFrom_drop: "substringFrom s (int n) = drop n s"
  by (simp add: substringFrom_def substring_def Let_def min_def max_def)

lemma getSuffix_loop_eq:
  "0 \<le> i \<Longrightarrow> maxLines < lineCount document \<Longrightarrow>
   getSuffix_loop document i maxLines acc =
     Inr (acc @ map (\<lambda>k. lines document ! k) [nat i ..< nat (maxLines + 1)])"
proof (induction document i maxLines acc rule: getSuffix_loop.induct)
  case (1 document i maxLines acc)
  show ?case
  proof (cases "i \<le> maxLines")
    case False
    then show ?thesis by (subst getSuffix_loop.simps) simp
  next
    case True
    with "1.prems" have inr: "lineAt document i = Inr (lines document ! nat i)"
      by (simp add: lineAt_def)
    from True "1.prems" have lt: "nat i < nat (maxLines + 1)"
      and suc: "nat (i + 1) = Suc (nat i)"
      by linarith+
    have upt: "[nat i ..< nat (maxLines + 1)] = nat i # [nat (i + 1) ..< nat (maxLines + 1)]"
      unfolding suc using lt by (rule upt_conv_Cons)
    show ?thesis
      apply (subst getSuffix_loop.simps)
      using True "1.prems" "1.IH"[OF True inr]
      apply (simp add: inr upt del: getSuffix_loop.simps)
      done
  qed
qed

lemma getSuffix_window:
  assumes "line position < length (lines document)"
  shows "getSuffix document position =
     Inr (trim (join nl (drop (character position) (lines document ! line position)
                         # map (\<lambda>k. lines document ! k)
                             [Suc (line position) ..<
                                min (length (lines document)) (line position + 4)])))"
proof -
  have l: "lineAt document (int (line position)) = Inr (lines document ! line position)"
    using assms by (simp add: lineAt_def lineCount_def)
  have a: "nat (int (line position) + 1) = Suc (line position)"
    by simp
  have b: "nat (min (lineCount document - 1) (int (line position) + 3) + 1) =
           min (length (lines document)) (line position + 4)"
    unfolding lineCount_def by linarith
  have "getSuffix_loop document (int (line position) + 1)
          (min (lineCount document - 1) (int (line position) + 3))
          [substringFrom (lines document ! line position) (int (character position))] =
        Inr ([substringFrom (lines document ! line position) (int (character position))]
             @ map (\<lambda>k. lines document ! k)
                 [Suc (line position) ..< min (length (lines document)) (line position + 4)])"
    by (subst getSuffix_loop_eq) (simp_all add: a b del: getSuffix_loop.simps)
  then show ?thesis
    by (simp add: getSuffix_def l Let_def substringFrom_drop del: getSuffix_loop.simps)
qed

text \<open>
  C6. With \<open>"  return x"\<close> typed and the raw response \<open>"```js\nreturn x\n```"\<close>,
  \<open>processCompletion\<close> returns the empty suggestion; and whenever the processed text,
  trimmed, equals the trimmed line prefix, it returns the empty suggestion.
\<close>

theorem processCompletion_echo_suppressed:
  "processCompletion ''```js\<newline>return x\<newline>```''
       \<lparr>lines = [''  return x''], languageId = ''javascript'', fileName = ''a.js''\<rparr>
       \<lparr>line = 0, character = 10\<rparr> = Inr []
   \<and> (\<forall>completion document position currentLineText.
         lineAt document (int (line position)) = Inr currentLineText \<longrightarrow>
         trim (cleanCompletion completion) =
           trim (substring currentLineText 0 (int (character position))) \<longrightarrow>
         processCompletion completion document position = Inr [])"
proof (intro conjI allI impI)
  show "processCompletion ''```js\<newline>return x\<newline>```''
       \<lparr>lines = [''  return x''], languageId = ''javascript'', fileName = ''a.js''\<rparr>
       \<lparr>line = 0, character = 10\<rparr> = Inr []"
    by code_simp
next
  fix completion and document and position :: Position and currentLineText
  assume "lineAt document (int (line position)) = Inr currentLineText"
    and "trim (cleanCompletion completion) =
           trim (substring currentLineText 0 (int (character position)))"
  then show "processCompletion completion document position = Inr []"
    by (simp add: processCompletion_def Let_def)
qed

theorem processCompletion_echo_suppressed_witness:
  "lineAt \<lparr>lines = [''  return x''], languageId = ''javascript'', fileName = ''a.js''\<rparr>
       (int (line \<lparr>line = 0, character = 10\<rparr>)) = Inr ''  return x''
   \<and> trim (cleanCompletion ''  return x;\<newline>}'') = ''return x;''
   \<and> trim (cleanCompletion ''```js\<newline>return x\<newline>```'') =
       trim (substring ''  return x'' 0 (int (character \<lparr>line = 0, character = 10\<rparr>)))
   \<and> processCompletion ''```js\<newline>return x\<newline>```''
       \<lparr>lines = [''  return x''], languageId = ''javascript'', fileName = ''a.js''\<rparr>
       \<lparr>line = 0, character = 10\<rparr> = Inr []"
proof -
  have l: "lineAt \<lparr>lines = [''  return x''], languageId = ''javascript'', fileName = ''a.js''\<rparr>
       (int (line \<lparr>line = 0, character = 10\<rparr>)) = Inr ''  return x''"
    by code_simp
  have t: "trim (cleanCompletion ''```js\<newline>return x\<newline>```'') =
       trim (substring ''  return x'' 0 (int (character \<lparr>line = 0, character = 10\<rparr>)))"
    by code_simp
  have c: "trim (cleanCompletion ''  return x;\<newline>}'') = ''return x;''"
    by code_simp
  from processCompletion_echo_suppressed l t c show ?thesis
    by blast
qed

section \<open>Properties of the JSON reader\<close>

text \<open>
  Every parser consumes input, so the length tests of \<open>parseElements\<close> and
  \<open>parseMembers\<close> never fail: both functions satisfy their equations without the tests.
\<close>

lemma skipSpace_length: "length (skipSpace s) \<le> length s"
  unfolding skipSpace_def by (rule length_dropWhile_le)

lemma skipSpace_Cons: "skipSpace s = c # r \<Longrightarrow> length r < length s"
  using skipSpace_length [of s] by simp

lemma consResult_Some:
  "consResult x res = Some (xs, r) \<Longrightarrow> \<exists>ys. res = Some (ys, r)"
  by (auto simp: consResult_def split: option.splits)

lemma parseString_cases:
  assumes "parseString (c # cs) = Some (str, r)"
  shows "r = cs \<or> (\<exists>t ys. parseString t = Some (ys, r) \<and> length t \<le> length cs)"
  using assms
  by (auto split: if_splits list.splits option.splits simp: Let_def dest!: consResult_Some)

lemma parseString_consumes:
  "parseString s = Some (str, r) \<Longrightarrow> length r < length s"
proof (induction s arbitrary: str r rule: length_induct)
  case (1 s)
  show ?case
  proof (cases s)
    case Nil
    with "1.prems" show ?thesis by simp
  next
    case (Cons c cs)
    from parseString_cases [OF "1.prems" [unfolded Cons]]
    show ?thesis
    proof
      assume "r = cs"
      with Cons show ?thesis by simp
    next
      assume "\<exists>t ys. parseString t = Some (ys, r) \<and> length t \<le> length cs"
      then obtain t ys where t: "parseString t = Some (ys, r)" "length t \<le> length cs"
        by blast
      with Cons have "length t < length s" by simp
      with "1.IH" t(1) have "length r < length t" by blast
      with t(2) Cons show ?thesis by simp
    qed
  qed
qed

lemma parseDigits_consumes:
  "parseDigits s = Some (ds, r) \<Longrightarrow> length r < length s"
proof -
  assume a: "parseDigits s = Some (ds, r)"
  then have ne: "takeWhile isDigit s \<noteq> []" and r: "r = dropWhile isDigit s"
    by (auto simp: parseDigits_def split: if_splits)
  have "length (takeWhile isDigit s) + length (dropWhile isDigit s) = length s"
    by (metis length_append takeWhile_dropWhile_id)
  with ne r show ?thesis by (cases "takeWhile isDigit s") auto
qed

lemma parseDigits_le:
  "parseDigits s = Some (ds, r) \<Longrightarrow> length r \<le> length s"
  using parseDigits_consumes [of s ds r] by simp

lemma parseNumber_consumes:
  "parseNumber s = Some (num, r) \<Longrightarrow> length r < length s"
  unfolding parseNumber_def Let_def
  by (auto split: if_splits list.splits option.splits prod.splits
           dest!: parseDigits_consumes)

lemmas parse_simps = parseValue.simps parseElements.simps parseMembers.simps

lemma parseValue_cases:
  assumes "parseValue s = Some (v, r)"
  shows "(\<exists>t. length t < length s \<and> (length r \<le> length t
              \<or> (\<exists>ms. parseMembers t = Some (ms, r)) \<or> (\<exists>vs. parseElements t = Some (vs, r))))"
proof -
  from assms obtain c t where ct: "skipSpace s = c # t"
    by (subst (asm) parseValue.simps) (auto split: list.splits simp del: parse_simps)
  then have lt: "length t < length s" by (rule skipSpace_Cons)
  have "length r \<le> length t
      \<or> (\<exists>ms. parseMembers t = Some (ms, r)) \<or> (\<exists>vs. parseElements t = Some (vs, r))"
    using assms ct
    apply (subst (asm) parseValue.simps)
    apply (auto split: if_splits list.splits option.splits prod.splits simp del: parse_simps
        dest!: parseString_consumes parseNumber_consumes skipSpace_Cons)
    done
  with lt show ?thesis by blast
qed

lemma parseElements_cases:
  assumes "parseElements s = Some (vs, r)"
  shows "\<exists>v r0. parseValue s = Some (v, r0) \<and> length r0 < length s
           \<and> (\<exists>t. length t < length r0 \<and> (r = t \<or> (\<exists>ws. parseElements t = Some (ws, r))))"
  using assms
  apply (subst (asm) parseElements.simps)
  apply (auto split: if_splits list.splits option.splits prod.splits simp del: parse_simps
      dest!: consResult_Some dest: skipSpace_Cons)
  done

lemma parseMembers_cases:
  assumes "parseMembers s = Some (ms, r)"
  shows "\<exists>t. length t < length s \<and> (r = t \<or> (\<exists>ws. parseMembers t = Some (ws, r)))"
  using assms
  apply (subst (asm) parseMembers.simps)
  apply (auto split: if_splits list.splits option.splits prod.splits simp del: parse_simps
      dest!: consResult_Some)
   apply (metis skipSpace_Cons order.strict_trans)+
  done

lemma parse_consumes:
  "(\<forall>v r. parseValue s = Some (v, r) \<longrightarrow> length r < length s)
   \<and> (\<forall>vs r. parseElements s = Some (vs, r) \<longrightarrow> length r < length s)
   \<and> (\<forall>ms r. parseMembers s = Some (ms, r) \<longrightarrow> length r < length s)"
proof (induction s rule: length_induct)
  case (1 s)
  have E: "length r < length s" if "parseElements s = Some (vs, r)" for vs r
  proof -
    from parseElements_cases [OF that] obtain r0 :: string and t
      where "length r0 < length s" "length t < length r0"
        and "r = t \<or> (\<exists>ws. parseElements t = Some (ws, r))"
      by (elim exE conjE)
    moreover from this "1.IH" have "(\<exists>ws. parseElements t = Some (ws, r)) \<Longrightarrow> length r < length t"
      by (meson order.strict_trans)
    ultimately show ?thesis by auto
  qed
  have M: "length r < length s" if "parseMembers s = Some (ms, r)" for ms r
  proof -
    from parseMembers_cases [OF that] obtain t
      where "length t < length s" "r = t \<or> (\<exists>ws. parseMembers t = Some (ws, r))"
      by (elim exE conjE)
    moreover from this "1.IH" have "(\<exists>ws. parseMembers t = Some (ws, r)) \<Longrightarrow> length r < length t"
      by meson
    ultimately show ?thesis by auto
  qed
  have V: "length r < length s" if "parseValue s = Some (v, r)" for v r
  proof -
    from parseValue_cases [OF that] obtain t
      where t: "length t < length s"
        "length r \<le> length t \<or> (\<exists>ms. parseMembers t = Some (ms, r))
           \<or> (\<exists>vs. parseElements t = Some (vs, r))"
      by (elim exE conjE)
    from t(1) "1.IH" have "(\<exists>ms. parseMembers t = Some (ms, r)) \<Longrightarrow> length r < length t"
      and "(\<exists>vs. parseElements t = Some (vs, r)) \<Longrightarrow> length r < length t"
      by meson+
    with t show ?thesis by auto
  qed
  from E M V show ?case by blast
qed

lemma parseValue_consumes: "parseValue s = Some (v, r) \<Longrightarrow> length r < length s"
  using parse_consumes [of s] by blast

lemma parseElements_unguarded:
  "parseElements s =
     (case parseValue s of
        None \<Rightarrow> None
      | Some (v, r) \<Rightarrow>
          (case skipSpace r of
             [] \<Rightarrow> None
           | c # r' \<Rightarrow>
               if c = CHR '','' then consResult v (parseElements r')
               else if c = CHR '']'' then Some ([v], r')
               else None))"
  by (subst parseElements.simps)
     (auto split: option.splits simp del: parse_simps dest: parseValue_consumes)

lemma parseMembers_unguarded:
  "parseMembers s =
     (case skipSpace s of
        [] \<Rightarrow> None
      | q # r0 \<Rightarrow>
          if q = CHR 0x22 then
            (case parseString r0 of
               None \<Rightarrow> None
             | Some (key, r1) \<Rightarrow>
                 (case skipSpace r1 of
                    [] \<Rightarrow> None
                  | colon # r2 \<Rightarrow>
                      if colon = CHR '':'' then
                        (case parseValue r2 of
                           None \<Rightarrow> None
                         | Some (v, r) \<Rightarrow>
                             (case skipSpace r of
                                [] \<Rightarrow> None
                              | c # r' \<Rightarrow>
                                  if c = CHR '','' then consResult (key, v) (parseMembers r')
                                  else if c = CHR ''}'' then Some ([(key, v)], r')
                                  else None))
                      else None))
          else None)"
proof (cases "skipSpace s")
  case Nil
  then show ?thesis by (subst parseMembers.simps) (simp del: parse_simps)
next
  case (Cons q r0)
  note s = this
  show ?thesis
  proof (cases "parseString r0")
    case None
    with s show ?thesis by (subst parseMembers.simps) (simp del: parse_simps)
  next
    case (Some kr)
    obtain key r1 where kr: "kr = (key, r1)" by (cases kr)
    show ?thesis
    proof (cases "skipSpace r1")
      case Nil
      with s Some kr show ?thesis by (subst parseMembers.simps) (simp del: parse_simps)
    next
      case c2: (Cons colon r2)
      have "length r2 < length r1" using c2 by (rule skipSpace_Cons)
      also have "length r1 < length r0" using Some kr by (simp add: parseString_consumes)
      also have "length r0 < length s" using s by (rule skipSpace_Cons)
      finally have g1: "length r2 < length s" .
      have g2: "length r < length s" if "parseValue r2 = Some (v, r)" for v r
        using parseValue_consumes [OF that] g1 by simp
      show ?thesis
        by (subst parseMembers.simps)
           (auto simp add: s Some kr c2 g1 simp del: parse_simps split: option.splits dest: g2)
    qed
  qed
qed


section \<open>Properties of the stream handler\<close>

lemma split_not_Nil: "split sep s \<noteq> []"
  by (induction s) (auto split: list.splits)

lemma split_no_sep: "sep \<notin> set l \<Longrightarrow> split sep l = [l]"
  by (induction l) auto

lemma split_append_sep:
  "sep \<notin> set l \<Longrightarrow> split sep (l @ sep # r) = l # split sep r"
  by (induction l) (auto split: list.splits simp: split_not_Nil)

lemma split_join:
  "\<forall>l\<in>set ls. sep \<notin> set l \<Longrightarrow> ls \<noteq> [] \<Longrightarrow> split sep (join sep ls) = ls"
proof (induction sep ls rule: join.induct)
  case (1 sep)
  then show ?case by simp
next
  case (2 sep l)
  then show ?case by (simp add: split_no_sep)
next
  case (3 sep l v va)
  then show ?case by (simp add: split_append_sep)
qed

lemma trim_Nil: "trim [] = []"
  by (simp add: trim_def trimEnd_def trimStart_def)

lemma onLine_collect:
  "onLine parse (\<lambda>c acc. acc @ [c]) acc ln = acc @ onLine parse (\<lambda>c acc. acc @ [c]) [] ln"
  by (simp add: onLine_def split: option.splits)

lemma foldl_onLine_collect:
  "foldl (onLine parse (\<lambda>c acc. acc @ [c])) acc lns =
     acc @ concat (map (onLine parse (\<lambda>c acc. acc @ [c]) []) lns)"
proof (induction lns arbitrary: acc)
  case Nil
  then show ?case by simp
next
  case (Cons ln lns)
  show ?case
    by (simp add: Cons.IH [of "onLine parse (\<lambda>c acc. acc @ [c]) acc ln"])
       (subst onLine_collect, simp)
qed

lemma onData_collect:
  "onData parse (\<lambda>c acc. acc @ [c]) chunk acc =
     acc @ concat (map (onLine parse (\<lambda>c acc. acc @ [c]) [])
                       (filter (\<lambda>ln. trim ln \<noteq> []) (split nl chunk)))"
  by (simp add: onData_def foldl_onLine_collect)

lemma fragments_foldl:
  "foldl (\<lambda>acc chunk. onData parse (\<lambda>c acc. acc @ [c]) chunk acc) acc chunks =
     acc @ concat (map (\<lambda>chunk. onData parse (\<lambda>c acc. acc @ [c]) chunk []) chunks)"
proof (induction chunks arbitrary: acc)
  case Nil
  then show ?case by simp
next
  case (Cons chunk chunks)
  show ?case
    by (simp add: Cons.IH [of "onData parse (\<lambda>c acc. acc @ [c]) chunk acc"])
       (subst onData_collect, simp add: onData_collect)
qed

lemma fragments_concat:
  "fragments parse chunks = concat (map (\<lambda>chunk. fragments parse [chunk]) chunks)"
  by (simp add: fragments_def fragments_foldl)

lemma fragments_append:
  "fragments parse (cs @ ds) = fragments parse cs @ fragments parse ds"
  by (subst fragments_concat, subst (2) fragments_concat, subst (3) fragments_concat) simp

lemma filter_split_join:
  assumes "\<forall>l\<in>set ls. nl \<notin> set l"
  shows "filter (\<lambda>ln. trim ln \<noteq> []) (split nl (join nl ls)) = filter (\<lambda>ln. trim ln \<noteq> []) ls"
proof (cases "ls = []")
  case True
  then show ?thesis by (simp add: trim_Nil)
next
  case False
  with assms show ?thesis by (simp add: split_join)
qed

lemma onLine_as_foldl:
  "onLine parse cb st ln = foldl (\<lambda>st f. cb f st) st (onLine parse (\<lambda>c acc. acc @ [c]) [] ln)"
  by (simp add: onLine_def split: option.splits)

lemma foldl_onLine_as_foldl:
  "foldl (onLine parse cb) st lns =
     foldl (\<lambda>st f. cb f st) st (concat (map (onLine parse (\<lambda>c acc. acc @ [c]) []) lns))"
proof (induction lns arbitrary: st)
  case Nil
  then show ?case by simp
next
  case (Cons ln lns)
  show ?case
    by (simp add: Cons.IH) (subst onLine_as_foldl, rule refl)
qed

lemma onData_as_foldl:
  "onData parse cb chunk st = foldl (\<lambda>st f. cb f st) st (fragments parse [chunk])"
  by (simp add: fragments_def onData_collect) (simp add: onData_def foldl_onLine_as_foldl)

lemma onData_invariant:
  assumes "\<And>c st. P st \<Longrightarrow> P (cb c st)" and "P st"
  shows "P (onData parse cb chunk st)"
proof -
  have "P (foldl (onLine parse cb) st lns)" for lns
    using \<open>P st\<close>
  proof (induction lns arbitrary: st)
    case Nil
    then show ?case by simp
  next
    case (Cons ln lns)
    have "P (onLine parse cb st ln)"
      using Cons.prems assms(1) by (simp add: onLine_def split: option.splits)
    then show ?case by (simp add: Cons.IH)
  qed
  then show ?thesis by (simp add: onData_def)
qed

text \<open>
  C2, as the code has it. The handler keeps no buffer from one chunk to the next: each
  chunk is split and parsed on its own. For a chunk made of the lines \<open>ls\<close>, whatever
  chunks come before and after it, \<open>onChunk\<close> is called once for every non-blank line
  that parses to a message with non-empty content, in order, and for no other line.
\<close>

theorem fragments_per_chunk:
  assumes "\<forall>l\<in>set ls. nl \<notin> set l"
  shows "fragments parse (before @ [join nl ls] @ after) =
           fragments parse before
           @ concat (map (\<lambda>l. case parse l of
                                 None \<Rightarrow> []
                               | Some data \<Rightarrow>
                                   (case message data of
                                      None \<Rightarrow> []
                                    | Some m \<Rightarrow> if content m \<noteq> [] then [content m] else []))
                         (filter (\<lambda>l. trim l \<noteq> []) ls))
           @ fragments parse after"
proof -
  have one: "onLine parse (\<lambda>c acc. acc @ [c]) [] =
             (\<lambda>l. case parse l of
                     None \<Rightarrow> []
                   | Some data \<Rightarrow>
                       (case message data of
                          None \<Rightarrow> []
                        | Some m \<Rightarrow> if content m \<noteq> [] then [content m] else []))"
    by (rule ext) (simp add: onLine_def split: option.splits)
  have "fragments parse [join nl ls] =
          concat (map (onLine parse (\<lambda>c acc. acc @ [c]) []) (filter (\<lambda>l. trim l \<noteq> []) ls))"
    using filter_split_join [OF assms]
    by (simp add: fragments_def onData_collect)
  moreover have "fragments parse (before @ [join nl ls] @ after) =
      fragments parse before @ fragments parse [join nl ls] @ fragments parse after"
    using fragments_append [of parse before "[join nl ls] @ after"]
      fragments_append [of parse "[join nl ls]" after]
    by simp
  ultimately show ?thesis
    by (simp add: one)
qed

theorem fragments_per_chunk_witness:
  "list_all (\<lambda>l. nl \<notin> set l)
     [assistantLine ''Hi'', [], ''not json'', assistantLine '' there'', []]
   \<and> fragments parseChatResponse
       ([] @ [join nl [assistantLine ''Hi'', [], ''not json'', assistantLine '' there'', []]]
        @ []) = [''Hi'', '' there'']"
proof -
  have h: "\<forall>l\<in>set [assistantLine ''Hi'', [], ''not json'', assistantLine '' there'', []].
             nl \<notin> set l"
    by code_simp
  have r: "concat (map (\<lambda>l. case parseChatResponse l of
                                 None \<Rightarrow> []
                               | Some data \<Rightarrow>
                                   (case message data of
                                      None \<Rightarrow> []
                                    | Some m \<Rightarrow> if content m \<noteq> [] then [content m] else []))
                         (filter (\<lambda>l. trim l \<noteq> [])
                            [assistantLine ''Hi'', [], ''not json'', assistantLine '' there'', []]))
           = [''Hi'', '' there'']"
    by code_simp
  have e: "fragments parseChatResponse [] = []"
    by (simp add: fragments_def)
  from fragments_per_chunk [OF h, of parseChatResponse "[]" "[]"] h show ?thesis
    unfolding r e by (simp add: list_all_iff)
qed

text \<open>
  C2 as stated fails: a well-formed line cut in two by a chunk boundary gives no call of
  \<open>onChunk\<close> at all, where the same line in one chunk gives one.
\<close>

theorem fragments_split_line_lost:
  "fragments parseChatResponse [''{\"message\":{\"role\":\"assistant\",\"con'', ''tent\":\"Hi\"},\"done\":false}\<newline>''] = []
   \<and> fragments parseChatResponse [''{\"message\":{\"role\":\"assistant\",\"con'' @ ''tent\":\"Hi\"},\"done\":false}\<newline>''] = [''Hi'']"
  by code_simp


section \<open>Properties of the chat provider\<close>

lemma slice_neg: "0 < n \<Longrightarrow> slice (- int n) xs = drop (length xs - n) xs"
  by (simp add: slice_def Let_def max_def) (auto simp: nat_diff_distrib')

lemma slice_zero: "slice 0 xs = xs"
  by (simp add: slice_def)

lemma addMessageToHistory_history:
  "chatHistory (addMessageToHistory msg s) =
     (if maxHistory s = 0 then chatHistory s @ [msg]
      else drop (Suc (length (chatHistory s)) - 2 * maxHistory s) (chatHistory s @ [msg]))"
proof (cases "maxHistory s = 0")
  case True
  then show ?thesis by (simp add: addMessageToHistory_def Let_def slice_zero)
next
  case False
  then have "slice (- int (maxHistory s) * 2) (chatHistory s @ [msg]) =
      drop (Suc (length (chatHistory s)) - 2 * maxHistory s) (chatHistory s @ [msg])"
    using slice_neg [of "2 * maxHistory s" "chatHistory s @ [msg]"] by (simp add: mult.commute)
  with False show ?thesis
    by (auto simp add: addMessageToHistory_def Let_def)
qed

lemma addMessageToHistory_fields [simp]:
  "maxHistory (addMessageToHistory msg s) = maxHistory s"
  "nextCall (addMessageToHistory msg s) = nextCall s"
  "phase (addMessageToHistory msg s) = phase s"
  "assistantMessage (addMessageToHistory msg s) = assistantMessage s"
  "trace (addMessageToHistory msg s) = trace s"
  by (simp_all add: addMessageToHistory_def Let_def)

lemma addMessageToHistory_suffix: "\<exists>k. chatHistory (addMessageToHistory msg s) = drop k (chatHistory s @ [msg])"
proof (cases "maxHistory s = 0")
  case True
  then have "chatHistory (addMessageToHistory msg s) = drop 0 (chatHistory s @ [msg])"
    by (simp add: addMessageToHistory_history)
  then show ?thesis ..
next
  case False
  then have "chatHistory (addMessageToHistory msg s) =
      drop (Suc (length (chatHistory s)) - 2 * maxHistory s) (chatHistory s @ [msg])"
    by (simp add: addMessageToHistory_history)
  then show ?thesis ..
qed

lemma addMessageToHistory_snoc:
  "\<exists>xs. chatHistory (addMessageToHistory msg s) = xs @ [msg]"
proof (cases "maxHistory s = 0")
  case True
  then show ?thesis by (simp add: addMessageToHistory_history)
next
  case False
  then have "Suc (length (chatHistory s)) - 2 * maxHistory s \<le> length (chatHistory s)"
    by simp
  then show ?thesis using False by (simp add: addMessageToHistory_history)
qed

lemma setLastContent_Nil [simp]: "setLastContent c [] = []"
  by (simp add: setLastContent_def)

lemma setLastContent_snoc [simp]: "setLastContent c (xs @ [m]) = xs @ [m\<lparr>content := c\<rparr>]"
  by (simp add: setLastContent_def)

lemma setLastContent_keeps:
  "length (setLastContent c h) = length h"
  "butlast (setLastContent c h) = butlast h"
  "map role (setLastContent c h) = map role h"
  by (cases h rule: rev_cases; simp)+

lemma onChunk_history:
  "chatHistory (onChunk call chunk s) = setLastContent (assistantMessage s call @ chunk) (chatHistory s)"
  by (simp add: onChunk_def Let_def)

lemma step_stream_keeps:
  assumes "streamEvent e"
  shows "length (chatHistory (step parse s e)) = length (chatHistory s)
       \<and> butlast (chatHistory (step parse s e)) = butlast (chatHistory s)
       \<and> map role (chatHistory (step parse s e)) = map role (chatHistory s)"
proof (cases e)
  case (Data call chunk)
  let ?P = "\<lambda>st. length (chatHistory st) = length (chatHistory s)
       \<and> butlast (chatHistory st) = butlast (chatHistory s)
       \<and> map role (chatHistory st) = map role (chatHistory s)"
  have "?P (onData parse (onChunk call) chunk s)"
    by (rule onData_invariant [where P = ?P]) (simp_all add: onChunk_history setLastContent_keeps)
  with Data show ?thesis by simp
next
  case (ConnectOk call)
  then show ?thesis by (simp add: handleSendMessage_resumed_def setLastContent_keeps)
qed (use assms in simp_all)

lemma step_stream_empty:
  "streamEvent e \<Longrightarrow> chatHistory s = [] \<Longrightarrow> chatHistory (step parse s e) = []"
  using step_stream_keeps [of e parse s] by simp

lemma run_append: "run parse s (es @ fs) = run parse (run parse s es) fs"
  by (simp add: run_def)

lemma run_stream_empty:
  "\<forall>e\<in>set events. streamEvent e \<Longrightarrow> chatHistory s = [] \<Longrightarrow> chatHistory (run parse s events) = []"
proof (induction events arbitrary: s)
  case Nil
  then show ?case by (simp add: run_def)
next
  case (Cons e events)
  from Cons.prems have "chatHistory (step parse s e) = []"
    by (simp add: step_stream_empty)
  with Cons show ?case by (simp add: run_def)
qed

lemma send_fields:
  assumes "trim userMessage \<noteq> []"
  shows "\<exists>xs. chatHistory (handleSendMessage userMessage s) = xs @ [\<lparr>role = Assistant, content = []\<rparr>]"
    and "phase (handleSendMessage userMessage s) (nextCall s) = Connecting"
    and "assistantMessage (handleSendMessage userMessage s) (nextCall s) = []"
    and "nextCall (handleSendMessage userMessage s) = Suc (nextCall s)"
    and "maxHistory (handleSendMessage userMessage s) = maxHistory s"
    and "chatHistory (handleSendMessage userMessage s) =
           chatHistory (addMessageToHistory \<lparr>role = Assistant, content = []\<rparr>
             (addMessageToHistory \<lparr>role = User, content = trim userMessage\<rparr> s))"
    and "trace (handleSendMessage userMessage s) =
           trace s @ [Request (nextCall s)
             (chatHistory (addMessageToHistory \<lparr>role = User, content = trim userMessage\<rparr> s))]"
  using assms addMessageToHistory_snoc [of "\<lparr>role = Assistant, content = []\<rparr>"
      "addMessageToHistory \<lparr>role = User, content = trim userMessage\<rparr> s"]
  by (simp_all add: handleSendMessage_def Let_def)

lemma connected_fields:
  assumes "trim userMessage \<noteq> []"
  shows "\<exists>xs. chatHistory (run parse s [SendMessage userMessage, ConnectOk (nextCall s)]) =
              xs @ [\<lparr>role = Assistant, content = []\<rparr>]"
    and "chatHistory (run parse s [SendMessage userMessage, ConnectOk (nextCall s)]) =
           chatHistory (handleSendMessage userMessage s)"
    and "phase (run parse s [SendMessage userMessage, ConnectOk (nextCall s)]) (nextCall s) = Streaming"
    and "assistantMessage (run parse s [SendMessage userMessage, ConnectOk (nextCall s)]) (nextCall s) = []"
    and "nextCall (run parse s [SendMessage userMessage, ConnectOk (nextCall s)]) = Suc (nextCall s)"
    and "maxHistory (run parse s [SendMessage userMessage, ConnectOk (nextCall s)]) = maxHistory s"
proof -
  from send_fields(1) [OF assms, of s] obtain xs where
    xs: "chatHistory (handleSendMessage userMessage s) = xs @ [\<lparr>role = Assistant, content = []\<rparr>]" ..
  note f = send_fields(2-5) [OF assms, of s]
  show "chatHistory (run parse s [SendMessage userMessage, ConnectOk (nextCall s)]) =
           chatHistory (handleSendMessage userMessage s)"
    by (simp add: run_def f handleSendMessage_resumed_def xs)
  then show "\<exists>xs. chatHistory (run parse s [SendMessage userMessage, ConnectOk (nextCall s)]) =
              xs @ [\<lparr>role = Assistant, content = []\<rparr>]"
    using xs by simp
  show "phase (run parse s [SendMessage userMessage, ConnectOk (nextCall s)]) (nextCall s) = Streaming"
    "assistantMessage (run parse s [SendMessage userMessage, ConnectOk (nextCall s)]) (nextCall s) = []"
    "nextCall (run parse s [SendMessage userMessage, ConnectOk (nextCall s)]) = Suc (nextCall s)"
    "maxHistory (run parse s [SendMessage userMessage, ConnectOk (nextCall s)]) = maxHistory s"
    by (simp_all add: run_def f handleSendMessage_resumed_def)
qed

lemma foldl_onChunk:
  assumes "chatHistory st = xs @ [m]"
  shows "chatHistory (foldl (\<lambda>st fragment. onChunk call fragment st) st fs) =
           xs @ [if fs = [] then m else m\<lparr>content := assistantMessage st call @ concat fs\<rparr>]
       \<and> assistantMessage (foldl (\<lambda>st fragment. onChunk call fragment st) st fs) call =
           assistantMessage st call @ concat fs
       \<and> maxHistory (foldl (\<lambda>st fragment. onChunk call fragment st) st fs) = maxHistory st
       \<and> nextCall (foldl (\<lambda>st fragment. onChunk call fragment st) st fs) = nextCall st
       \<and> phase (foldl (\<lambda>st fragment. onChunk call fragment st) st fs) = phase st"
  using assms
proof (induction fs arbitrary: st m)
  case Nil
  then show ?case by simp
next
  case (Cons f fs)
  have h: "chatHistory (onChunk call f st) = xs @ [m\<lparr>content := assistantMessage st call @ f\<rparr>]"
    by (simp add: onChunk_history Cons.prems)
  have a: "assistantMessage (onChunk call f st) call = assistantMessage st call @ f"
    "maxHistory (onChunk call f st) = maxHistory st"
    "nextCall (onChunk call f st) = nextCall st"
    "phase (onChunk call f st) = phase st"
    by (simp_all add: onChunk_def Let_def)
  from Cons.IH [OF h] show ?case
    by (simp add: a)
qed

lemma foldl_onChunk_phase:
  "phase (foldl (\<lambda>st f. onChunk call f st) st fs) = phase st"
  by (induction fs arbitrary: st) (simp_all add: onChunk_def Let_def)

lemma run_data:
  "phase st call = Streaming \<Longrightarrow>
   run parse st (map (Data call) chunks) =
     foldl (\<lambda>st f. onChunk call f st) st (fragments parse chunks)"
proof (induction chunks arbitrary: st)
  case Nil
  then show ?case by (simp add: run_def fragments_def)
next
  case (Cons c cs)
  let ?st = "foldl (\<lambda>st f. onChunk call f st) st (fragments parse [c])"
  have "phase ?st call = Streaming"
    by (simp add: foldl_onChunk_phase Cons.prems)
  from Cons.IH [OF this] have "run parse ?st (map (Data call) cs) =
      foldl (\<lambda>st f. onChunk call f st) st (fragments parse [c] @ fragments parse cs)"
    by simp
  moreover have "run parse st (map (Data call) (c # cs)) = run parse ?st (map (Data call) cs)"
    using Cons.prems by (simp add: run_def onData_as_foldl)
  moreover have "fragments parse (c # cs) = fragments parse [c] @ fragments parse cs"
    using fragments_append [of parse "[c]" cs] by simp
  ultimately show ?case by simp
qed

text \<open>
  C1 fails on the code. \<open>streamChatCompletion\<close> returns once its handlers are
  registered: for a send whose stream carries one line, the promise is resolved before
  \<open>onChunk\<close> is called.
\<close>

theorem streamChatCompletion_resolves_before_chunks:
  "trace (run parseChatResponse (initial 20)
           [SendMessage ''Hello'', ConnectOk 0, Data 0 (assistantLine ''Hi'' @ [nl]), End 0]) =
     [Request 0 [\<lparr>role = User, content = ''Hello''\<rparr>], Resolved 0, OnChunk 0 ''Hi'']"
  by code_simp

text \<open>
  C4 fails on the code. When the stream breaks after the fragment \<open>Par\<close> no handler
  runs: the partial assistant turn stays and no error turn is appended.
\<close>

theorem stream_error_keeps_partial_turn:
  "chatHistory (run parseChatResponse (initial 20)
                 [SendMessage ''Hello'', ConnectOk 0, Data 0 (assistantLine ''Par'' @ [nl]),
                  StreamError 0]) =
     [\<lparr>role = User, content = ''Hello''\<rparr>, \<lparr>role = Assistant, content = ''Par''\<rparr>]"
  by code_simp

text \<open>
  What the \<open>catch\<close> block does when it is reached, that is when the connection is
  refused: the placeholder goes, the error turn comes, the user's turn stays before it.
\<close>

lemma catch_history:
  assumes "chatHistory st = zs @ [m]" and "role m = Assistant"
    and "maxHistory st = 0 \<or> Suc (length zs) \<le> 2 * maxHistory st"
  shows "chatHistory (handleSendMessage_catch e st) =
           zs @ [\<lparr>role = Assistant, content = ''Error: '' @ e\<rparr>]"
proof -
  have "chatHistory (handleSendMessage_catch e st) =
      chatHistory (addMessageToHistory \<lparr>role = Assistant, content = ''Error: '' @ e\<rparr>
                     (st\<lparr>chatHistory := zs\<rparr>))"
    using assms(1,2) by (simp add: handleSendMessage_catch_def Let_def)
  also have "\<dots> = zs @ [\<lparr>role = Assistant, content = ''Error: '' @ e\<rparr>]"
    using assms(3) by (auto simp add: addMessageToHistory_history)
  finally show ?thesis .
qed

lemma step_ConnectFail:
  "phase st call = Connecting \<Longrightarrow>
   step parse st (ConnectFail call err) =
     handleSendMessage_catch (''Failed to stream chat completion: '' @ err)
       (st\<lparr>phase := (phase st)(call := Failed),
           trace := trace st @ [Rejected call (''Failed to stream chat completion: '' @ err)]\<rparr>)"
  by (simp add: Let_def)

lemma send_history_shape:
  assumes "trim userMessage \<noteq> []"
  shows "\<exists>zs. chatHistory (handleSendMessage userMessage s) =
              zs @ [\<lparr>role = User, content = trim userMessage\<rparr>, \<lparr>role = Assistant, content = []\<rparr>]
            \<and> (maxHistory s = 0 \<or> Suc (Suc (length zs)) \<le> 2 * maxHistory s)"
proof -
  let ?user = "\<lparr>role = User, content = trim userMessage\<rparr>"
  let ?ph = "\<lparr>role = Assistant, content = []\<rparr>"
  let ?s1 = "addMessageToHistory ?user s"
  let ?s2 = "handleSendMessage userMessage s"
  note f = send_fields(6) [OF assms, of s]
  from addMessageToHistory_snoc [of ?user s] obtain ys where ys: "chatHistory ?s1 = ys @ [?user]" ..
  have two: "chatHistory ?s2 =
      (if maxHistory s = 0 then chatHistory ?s1 @ [?ph]
       else drop (Suc (length (chatHistory ?s1)) - 2 * maxHistory s) (chatHistory ?s1 @ [?ph]))"
    unfolding f by (subst addMessageToHistory_history) simp
  show ?thesis
  proof (cases "maxHistory s = 0")
    case True
    with two have "chatHistory ?s2 = ys @ [?user, ?ph]"
      by (simp add: ys)
    with True show ?thesis by simp
  next
    case False
    let ?zs = "drop (Suc (Suc (length ys)) - 2 * maxHistory s) ys"
    from False have k: "Suc (Suc (length ys)) - 2 * maxHistory s \<le> length ys"
      by simp
    from two False have "chatHistory ?s2 =
        drop (Suc (Suc (length ys)) - 2 * maxHistory s) (ys @ [?user, ?ph])"
      by (simp add: ys)
    also have "\<dots> = ?zs @ [?user, ?ph]"
      using k by simp
    finally have a: "chatHistory ?s2 = ?zs @ [?user, ?ph]" .
    have b: "Suc (Suc (length ?zs)) \<le> 2 * maxHistory s"
      using False by simp
    show ?thesis
      by (rule exI [of _ ?zs]) (use a b in simp)
  qed
qed

lemma connect_failure_history:
  assumes "trim userMessage \<noteq> []"
  shows "\<exists>zs. chatHistory (run parse s [SendMessage userMessage, ConnectFail (nextCall s) err]) =
           zs @ [\<lparr>role = User, content = trim userMessage\<rparr>,
                 \<lparr>role = Assistant, content = ''Error: Failed to stream chat completion: '' @ err\<rparr>]"
proof -
  let ?user = "\<lparr>role = User, content = trim userMessage\<rparr>"
  let ?ph = "\<lparr>role = Assistant, content = []\<rparr>"
  let ?s2 = "handleSendMessage userMessage s"
  let ?msg = "''Failed to stream chat completion: '' @ err"
  let ?st = "?s2\<lparr>phase := (phase ?s2)(nextCall s := Failed),
                 trace := trace ?s2 @ [Rejected (nextCall s) ?msg]\<rparr>"
  note f = send_fields(2,5) [OF assms, of s]
  from send_history_shape [OF assms, of s] obtain zs
    where zs: "chatHistory ?s2 = zs @ [?user, ?ph]"
      and le: "maxHistory s = 0 \<or> Suc (Suc (length zs)) \<le> 2 * maxHistory s"
    by (elim exE conjE)
  have h: "chatHistory ?st = (zs @ [?user]) @ [?ph]"
    by (simp add: zs)
  have r: "role ?ph = Assistant"
    by simp
  have m: "maxHistory ?st = 0 \<or> Suc (length (zs @ [?user])) \<le> 2 * maxHistory ?st"
    using le by (simp add: f(2))
  have "run parse s [SendMessage userMessage, ConnectFail (nextCall s) err] =
      step parse ?s2 (ConnectFail (nextCall s) err)"
    by (simp add: run_def)
  then have "run parse s [SendMessage userMessage, ConnectFail (nextCall s) err] =
      handleSendMessage_catch ?msg ?st"
    by (simp only: step_ConnectFail [OF f(1)])
  then have "chatHistory (run parse s [SendMessage userMessage, ConnectFail (nextCall s) err]) =
      (zs @ [?user]) @ [\<lparr>role = Assistant, content = ''Error: '' @ ?msg\<rparr>]"
    by (simp only: catch_history [OF h r m])
  then have "chatHistory (run parse s [SendMessage userMessage, ConnectFail (nextCall s) err]) =
      zs @ [?user, \<lparr>role = Assistant, content = ''Error: Failed to stream chat completion: '' @ err\<rparr>]"
    by simp
  then show ?thesis
    by (intro exI)
qed

text \<open>
  C5 fails on the code for the bound 0: \<open>slice(-0)\<close> is the whole array, so nothing
  is evicted and one completed exchange leaves two turns where the claim has none.
\<close>

theorem history_not_trimmed_at_zero:
  "chatHistory (run parseChatResponse (initial 0)
                 (exchanges 0 [(''Hello'', [assistantLine ''Hi'' @ [nl]])])) =
     [\<lparr>role = User, content = ''Hello''\<rparr>, \<lparr>role = Assistant, content = ''Hi''\<rparr>]
   \<and> length (chatHistory (run parseChatResponse (initial 0)
                         (exchanges 0 [(''Hello'', [assistantLine ''Hi'' @ [nl]])])))
       \<noteq> min 1 0 * 2"
  by code_simp

text \<open>
  For a bound of at least one pair the history after \<open>k\<close> completed exchanges is what
  C5 says: the turns of the most recent exchanges, in order, \<open>min(k, b) * 2\<close> of them.
\<close>

lemma mostRecent_length: "length (mostRecent n xs) = min n (length xs)"
  by (simp add: mostRecent_def)

lemma mostRecent_all: "length xs \<le> n \<Longrightarrow> mostRecent n xs = xs"
  by (simp add: mostRecent_def)

lemma mostRecent_append:
  "mostRecent n (mostRecent n xs @ ys) = mostRecent n (xs @ ys)"
proof (cases "length xs \<le> n")
  case True
  then show ?thesis by (simp add: mostRecent_all)
next
  case False
  then have "length xs - n + length ys = length xs + length ys - n"
    and "length ys - n = length xs + length ys - n - length xs"
    by simp_all
  with False show ?thesis
    by (simp add: mostRecent_def add.commute)
qed

lemma addMessageToHistory_mostRecent:
  "0 < maxHistory s \<Longrightarrow>
   chatHistory (addMessageToHistory msg s) = mostRecent (2 * maxHistory s) (chatHistory s @ [msg])"
  by (simp add: addMessageToHistory_history mostRecent_def)

lemma exchange_run:
  assumes "trim userMessage \<noteq> []" and "0 < maxHistory s"
  shows "chatHistory (run parse s (exchange (nextCall s) userMessage chunks)) =
           mostRecent (2 * maxHistory s)
             (chatHistory s @ exchangeTurns parse (userMessage, chunks))"
    and "nextCall (run parse s (exchange (nextCall s) userMessage chunks)) = Suc (nextCall s)"
    and "maxHistory (run parse s (exchange (nextCall s) userMessage chunks)) = maxHistory s"
proof -
  let ?call = "nextCall s"
  let ?b = "2 * maxHistory s"
  let ?s1 = "run parse s [SendMessage userMessage, ConnectOk ?call]"
  let ?user = "\<lparr>role = User, content = trim userMessage\<rparr>"
  let ?ph = "\<lparr>role = Assistant, content = []\<rparr>"
  let ?a = "\<lparr>role = Assistant, content = concat (fragments parse chunks)\<rparr>"
  let ?s2 = "foldl (\<lambda>st f. onChunk ?call f st) ?s1 (fragments parse chunks)"
  note c = connected_fields [OF assms(1), of parse s]
  have h1: "chatHistory ?s1 = mostRecent ?b (chatHistory s @ [?user, ?ph])"
    using mostRecent_append [of ?b "chatHistory s @ [?user]" "[?ph]"]
    by (simp add: c(2) send_fields(6) [OF assms(1)] addMessageToHistory_mostRecent assms(2))
  have "mostRecent ?b ((chatHistory s @ [?user]) @ [?ph]) =
      drop (Suc (length (chatHistory s)) - (?b - 1)) (chatHistory s @ [?user]) @ [?ph]"
    using assms(2) by (simp add: mostRecent_def Suc_diff_le)
  with h1 have h1': "chatHistory ?s1 =
      drop (Suc (length (chatHistory s)) - (?b - 1)) (chatHistory s @ [?user]) @ [?ph]"
    by simp
  have run: "run parse s (exchange ?call userMessage chunks) =
      step parse (run parse ?s1 (map (Data ?call) chunks)) (End ?call)"
    by (simp add: exchange_def run_def)
  have s2: "run parse ?s1 (map (Data ?call) chunks) = ?s2"
    by (rule run_data) (rule c(3))
  from foldl_onChunk [OF h1', of ?call "fragments parse chunks"]
  have f: "chatHistory ?s2 =
      drop (Suc (length (chatHistory s)) - (?b - 1)) (chatHistory s @ [?user]) @ [?a]"
    "maxHistory ?s2 = maxHistory ?s1" "nextCall ?s2 = nextCall ?s1"
    by (simp_all add: c(4))
  have "mostRecent ?b ((chatHistory s @ [?user]) @ [?a]) =
      drop (Suc (length (chatHistory s)) - (?b - 1)) (chatHistory s @ [?user]) @ [?a]"
    using assms(2) by (simp add: mostRecent_def Suc_diff_le)
  with f(1) have "chatHistory ?s2 = mostRecent ?b (chatHistory s @ [?user, ?a])"
    by simp
  then show "chatHistory (run parse s (exchange ?call userMessage chunks)) =
           mostRecent ?b (chatHistory s @ exchangeTurns parse (userMessage, chunks))"
    by (simp add: run s2 exchangeTurns_def)
  show "nextCall (run parse s (exchange ?call userMessage chunks)) = Suc ?call"
    by (simp add: run s2 f c(5))
  show "maxHistory (run parse s (exchange ?call userMessage chunks)) = maxHistory s"
    by (simp add: run s2 f c(6))
qed

lemma exchanges_run:
  assumes "0 < maxHistory s" and "\<forall>x\<in>set exs. trim (fst x) \<noteq> []"
    and "length (chatHistory s) \<le> 2 * maxHistory s"
  shows "chatHistory (run parse s (exchanges (nextCall s) exs)) =
           mostRecent (2 * maxHistory s) (chatHistory s @ concat (map (exchangeTurns parse) exs))"
  using assms
proof (induction exs arbitrary: s)
  case Nil
  then show ?case by (simp add: run_def mostRecent_all)
next
  case (Cons x exs)
  let ?s' = "run parse s (exchange (nextCall s) (fst x) (snd x))"
  from Cons.prems have t: "trim (fst x) \<noteq> []" by simp
  note e = exchange_run [OF t Cons.prems(1), of parse "snd x"]
  have "chatHistory (run parse ?s' (exchanges (nextCall ?s') exs)) =
      mostRecent (2 * maxHistory ?s') (chatHistory ?s' @ concat (map (exchangeTurns parse) exs))"
    using Cons.prems by (intro Cons.IH) (simp_all add: e mostRecent_length)
  then show ?case
    by (simp add: e run_append mostRecent_append)
qed

lemma length_turns: "length (concat (map (exchangeTurns parse) exs)) = 2 * length exs"
  by (induction exs) (simp_all add: exchangeTurns_def)

lemma exchanges_history_bounded:
  assumes "0 < b" and "\<forall>x\<in>set exs. trim (fst x) \<noteq> []"
  shows "chatHistory (run parse (initial b) (exchanges 0 exs)) =
           mostRecent (2 * b) (concat (map (exchangeTurns parse) exs))
       \<and> length (chatHistory (run parse (initial b) (exchanges 0 exs))) = min (length exs) b * 2"
proof -
  have "chatHistory (run parse (initial b) (exchanges (nextCall (initial b)) exs)) =
      mostRecent (2 * maxHistory (initial b))
        (chatHistory (initial b) @ concat (map (exchangeTurns parse) exs))"
    using assms by (intro exchanges_run) (simp_all add: initial_def)
  then have "chatHistory (run parse (initial b) (exchanges 0 exs)) =
           mostRecent (2 * b) (concat (map (exchangeTurns parse) exs))"
    by (simp add: initial_def)
  then show ?thesis
    by (simp add: mostRecent_length length_turns min_def)
qed

text \<open>
  C7. Once \<open>clearChat\<close> has run, whatever went before, the events of streams still
  open (chunks, stream end, a connection made late) leave the history empty.
\<close>

theorem no_turn_after_clearChat:
  assumes "\<forall>e\<in>set events. streamEvent e"
  shows "chatHistory (run parse s (before @ [ClearChat] @ events)) = []"
proof -
  have "chatHistory (run parse s (before @ [ClearChat])) = []"
    by (simp add: run_def clearChat_def)
  with assms show ?thesis
    using run_append [of parse s "before @ [ClearChat]" events]
    by (simp add: run_stream_empty)
qed

theorem no_turn_after_clearChat_witness:
  "chatHistory (run parseChatResponse (initial 20) [SendMessage ''Hello'', ConnectOk 0]) =
     [\<lparr>role = User, content = ''Hello''\<rparr>, \<lparr>role = Assistant, content = []\<rparr>]
   \<and> list_all streamEvent [Data 0 (assistantLine ''Hi'' @ [nl]), End 0]
   \<and> chatHistory (run parseChatResponse (initial 20)
        ([SendMessage ''Hello'', ConnectOk 0] @ [ClearChat]
         @ [Data 0 (assistantLine ''Hi'' @ [nl]), End 0])) = []"
proof -
  have a: "chatHistory (run parseChatResponse (initial 20) [SendMessage ''Hello'', ConnectOk 0]) =
     [\<lparr>role = User, content = ''Hello''\<rparr>, \<lparr>role = Assistant, content = []\<rparr>]"
    by code_simp
  have b: "\<forall>e\<in>set [Data 0 (assistantLine ''Hi'' @ [nl]), End 0]. streamEvent e"
    by simp
  from a b no_turn_after_clearChat [OF b, where parse = parseChatResponse and s = "initial 20"
      and before = "[SendMessage ''Hello'', ConnectOk 0]"]
  show ?thesis
    by (simp add: list_all_iff)
qed

text \<open>
  C8. After a send and its connection, the fragments handed to \<open>onChunk\<close> one after the
  other leave the in-progress assistant turn, the last of the history, with their
  concatenation as content; the turns before it are as they were.
\<close>

theorem fragments_concatenated:
  assumes "trim userMessage \<noteq> []"
  shows "chatHistory (foldl (\<lambda>st fragment. onChunk (nextCall s) fragment st)
                        (run parse s [SendMessage userMessage, ConnectOk (nextCall s)]) fs) =
         butlast (chatHistory (run parse s [SendMessage userMessage, ConnectOk (nextCall s)]))
         @ [\<lparr>role = Assistant, content = concat fs\<rparr>]"
proof -
  let ?s1 = "run parse s [SendMessage userMessage, ConnectOk (nextCall s)]"
  from connected_fields(1) [OF assms] obtain xs where
    xs: "chatHistory ?s1 = xs @ [\<lparr>role = Assistant, content = []\<rparr>]" ..
  have acc: "assistantMessage ?s1 (nextCall s) = []"
    by (rule connected_fields(4) [OF assms])
  from foldl_onChunk [OF xs, of "nextCall s" fs] show ?thesis
    by (simp add: xs acc)
qed

theorem fragments_concatenated_witness:
  "trim ''Hello'' \<noteq> []
   \<and> chatHistory (foldl (\<lambda>st fragment. onChunk (nextCall (initial 20)) fragment st)
        (run parseChatResponse (initial 20)
           [SendMessage ''Hello'', ConnectOk (nextCall (initial 20))])
        [''Hi'', '' there'', ''!'']) =
     [\<lparr>role = User, content = ''Hello''\<rparr>, \<lparr>role = Assistant, content = ''Hi there!''\<rparr>]"
proof -
  have a: "trim ''Hello'' \<noteq> []"
    by code_simp
  have b: "butlast (chatHistory (run parseChatResponse (initial 20)
             [SendMessage ''Hello'', ConnectOk (nextCall (initial 20))])) =
           [\<lparr>role = User, content = ''Hello''\<rparr>]"
    by code_simp
  from fragments_concatenated [OF a, where parse = parseChatResponse and s = "initial 20"
      and fs = "[''Hi'', '' there'', ''!'']"] a b
  show ?thesis by simp
qed

text \<open>
  C9, as the code has it. Turns are evicted only where a turn is appended
  (\<open>addMessageToHistory\<close>: the user's turn at the start of a send, the placeholder
  right after it, an error turn), and then from the front. The events of a stream, from
  the connection to the end, remove nothing and add nothing: the history keeps its
  length, its roles and every turn but the last, whose content alone may change.
\<close>

theorem eviction_only_on_append:
  "(streamEvent e \<longrightarrow>
      length (chatHistory (step parse s e)) = length (chatHistory s)
    \<and> butlast (chatHistory (step parse s e)) = butlast (chatHistory s)
    \<and> map role (chatHistory (step parse s e)) = map role (chatHistory s))
   \<and> (\<exists>k. chatHistory (addMessageToHistory msg s) = drop k (chatHistory s @ [msg]))"
  using step_stream_keeps [of e parse s] addMessageToHistory_suffix [of msg s] by blast

theorem eviction_only_on_append_witness:
  "streamEvent (Data 0 (assistantLine ''Hi'' @ [nl]))
   \<and> chatHistory (run parseChatResponse (initial 1) [SendMessage ''a'', ConnectOk 0]) =
       [\<lparr>role = User, content = ''a''\<rparr>, \<lparr>role = Assistant, content = []\<rparr>]
   \<and> length (chatHistory (step parseChatResponse
        (run parseChatResponse (initial 1) [SendMessage ''a'', ConnectOk 0])
        (Data 0 (assistantLine ''Hi'' @ [nl])))) = 2
   \<and> butlast (chatHistory (step parseChatResponse
        (run parseChatResponse (initial 1) [SendMessage ''a'', ConnectOk 0])
        (Data 0 (assistantLine ''Hi'' @ [nl])))) =
       [\<lparr>role = User, content = ''a''\<rparr>]"
proof -
  have a: "streamEvent (Data 0 (assistantLine ''Hi'' @ [nl]))"
    by simp
  have b: "chatHistory (run parseChatResponse (initial 1) [SendMessage ''a'', ConnectOk 0]) =
       [\<lparr>role = User, content = ''a''\<rparr>, \<lparr>role = Assistant, content = []\<rparr>]"
    by code_simp
  from eviction_only_on_append [of "Data 0 (assistantLine ''Hi'' @ [nl])" parseChatResponse
      "run parseChatResponse (initial 1) [SendMessage ''a'', ConnectOk 0]"] a b
  show ?thesis by simp
qed

text \<open>
  C9 as stated fails: with a bound of one pair and one exchange completed, the next send
  evicts both turns of that exchange while it is itself still waiting for its connection.
\<close>

theorem eviction_during_exchange:
  "chatHistory (run parseChatResponse (initial 1)
                 [SendMessage ''a'', ConnectOk 0, Data 0 (assistantLine ''Hi'' @ [nl]), End 0]) =
     [\<lparr>role = User, content = ''a''\<rparr>, \<lparr>role = Assistant, content = ''Hi''\<rparr>]
   \<and> chatHistory (run parseChatResponse (initial 1)
                 [SendMessage ''a'', ConnectOk 0, Data 0 (assistantLine ''Hi'' @ [nl]), End 0,
                  SendMessage ''b'']) =
     [\<lparr>role = User, content = ''b''\<rparr>, \<lparr>role = Assistant, content = []\<rparr>]
   \<and> phase (run parseChatResponse (initial 1)
                 [SendMessage ''a'', ConnectOk 0, Data 0 (assistantLine ''Hi'' @ [nl]), End 0,
                  SendMessage ''b'']) 1 =
     Connecting"
  by code_simp

text \<open>
  C10, as the code has it. The messages of the request are the history as it is once the
  user's turn is appended: its last message is the user's turn, and the placeholder of
  this exchange comes after it in the history, not in the request.
\<close>

theorem request_is_snapshot:
  assumes "trim userMessage \<noteq> []"
  shows "trace (step parse s (SendMessage userMessage)) =
           trace s @ [Request (nextCall s)
             (chatHistory (addMessageToHistory \<lparr>role = User, content = trim userMessage\<rparr> s))]
       \<and> chatHistory (addMessageToHistory \<lparr>role = User, content = trim userMessage\<rparr> s) \<noteq> []
       \<and> last (chatHistory (addMessageToHistory \<lparr>role = User, content = trim userMessage\<rparr> s)) =
           \<lparr>role = User, content = trim userMessage\<rparr>
       \<and> (\<exists>k. chatHistory (step parse s (SendMessage userMessage)) =
                drop k (chatHistory (addMessageToHistory \<lparr>role = User, content = trim userMessage\<rparr> s)
                        @ [\<lparr>role = Assistant, content = []\<rparr>]))"
proof -
  from addMessageToHistory_snoc [of "\<lparr>role = User, content = trim userMessage\<rparr>" s] obtain xs where
    "chatHistory (addMessageToHistory \<lparr>role = User, content = trim userMessage\<rparr> s) =
       xs @ [\<lparr>role = User, content = trim userMessage\<rparr>]" ..
  moreover note send_fields(6,7) [OF assms, of s]
    addMessageToHistory_suffix [of "\<lparr>role = Assistant, content = []\<rparr>"
      "addMessageToHistory \<lparr>role = User, content = trim userMessage\<rparr> s"]
  ultimately show ?thesis by simp
qed

theorem request_is_snapshot_witness:
  "trim '' Hello '' \<noteq> []
   \<and> trace (step parseChatResponse (initial 20) (SendMessage '' Hello '')) =
       [Request 0 [\<lparr>role = User, content = ''Hello''\<rparr>]]
   \<and> chatHistory (step parseChatResponse (initial 20) (SendMessage '' Hello '')) =
       [\<lparr>role = User, content = ''Hello''\<rparr>, \<lparr>role = Assistant, content = []\<rparr>]"
proof -
  have a: "trim '' Hello '' \<noteq> []"
    by code_simp
  have b: "chatHistory (addMessageToHistory \<lparr>role = User, content = trim '' Hello ''\<rparr> (initial 20)) =
           [\<lparr>role = User, content = ''Hello''\<rparr>]"
    by code_simp
  have c: "chatHistory (step parseChatResponse (initial 20) (SendMessage '' Hello '')) =
       [\<lparr>role = User, content = ''Hello''\<rparr>, \<lparr>role = Assistant, content = []\<rparr>]"
    by code_simp
  have d: "trace (initial 20) = []" "nextCall (initial 20) = 0"
    by (simp_all add: initial_def)
  from request_is_snapshot [OF a, of parseChatResponse "initial 20"] a c show ?thesis
    unfolding b d by simp
qed

text \<open>
  C10 as stated fails: an exchange whose stream carried no content leaves an assistant
  turn with empty content, and the next request holds it.
\<close>

theorem request_with_empty_assistant_turn:
  "trace (run parseChatResponse (initial 20)
           [SendMessage ''a'', ConnectOk 0, End 0, SendMessage ''b'']) =
     [Request 0 [\<lparr>role = User, content = ''a''\<rparr>], Resolved 0,
      Request 1 [\<lparr>role = User, content = ''a''\<rparr>, \<lparr>role = Assistant, content = []\<rparr>,
                 \<lparr>role = User, content = ''b''\<rparr>]]"
  by code_simp

end
